theory Spec2Isabelle
  imports Main "HOL-Library.Sublist"
begin

section \<open>Data model\<close>

text \<open>
  JavaScript object literals and the JSON bodies written by \<open>res.json\<close>. An object is an
  association list, so that the order of the keys of a literal is kept.
\<close>

datatype json =
    JNull
  | JBool bool
  | JNum int
  | JStr string
  | JArr "json list"
  | JObj "(string \<times> json) list"

text \<open>
  The Express request, with the fields this file reads or that Express rewrites while it
  dispatches: \<open>req.url\<close> (path and query string), \<open>req.baseUrl\<close> (the mount path of the running
  handler; \<open>reqBaseUrl\<close> here, \<open>baseUrl\<close> being a constant of \<open>app.js\<close>) and \<open>req.user\<close> (\<open>undefined\<close> is \<open>None\<close>).
\<close>

record request =
  "method" :: string
  url :: string
  reqBaseUrl :: string
  headers :: "(string \<times> string) list"
  body :: "json option"
  user :: "json option"

record response =
  status :: nat
  resHeaders :: "(string \<times> string) list"
  resBody :: "json option"

text \<open>
  One entry of the wire-level error list: \<open>{ statusCode, message, code, meta }\<close>, the first
  three of them strings.
\<close>

datatype error_item =
  ErrorItem (itemStatusCode: string) (itemMessage: string) (itemCode: string) (itemMeta: json)

text \<open>What \<open>formatError\<close> returns: the three fields both terminal handlers read.\<close>

record formatted =
  message :: string
  statusCode :: nat
  jsonResponse :: "error_item list"

datatype level = Warn | Error

type_synonym log_entry = "level \<times> json \<times> string"

text \<open>
  A handler either calls \<open>next()\<close>, ends the response, or calls \<open>next(err)\<close> (a thrown
  exception is forwarded by Express in the same way). The request and the response are the
  objects as the handler leaves them; what it wrote to the logger comes with the outcome. A
  handler that does none of the three and leaves the request open is not represented.
\<close>

datatype outcome =
    Next request response
  | Done response
  | Fail json request response

type_synonym handler = "request \<Rightarrow> response \<Rightarrow> outcome \<times> log_entry list"

datatype stage =
    Helmet | ReferrerPolicy | ContentSecurityPolicy
  | Static | HealthCheck | PassportInitialize | RequestLogger | CookieParser
  | Urlencoded | JsonParser | Cors
  | AuthRoutes | MailerRoutes | VerifyJwt | PaymentRoutes
  | GraphqlExpress | GraphiqlExpress
  | UnknownRoute | ErrorMiddleware

text \<open>
  A handler of three arguments runs while no error is pending, one of four arguments
  (\<open>error, req, res, next\<close>) only while one is.
\<close>

datatype action = Plain handler | OnError "json \<Rightarrow> handler"

datatype layer = Layer (mount: string) (stage: stage) (action: action)

datatype event = Enter stage | Logged log_entry

subsection \<open>Configuration and collaborators\<close>

record server =
  port :: nat
  docs :: bool

record config =
  contentSecurityPolicy :: "(string \<times> string list) list"
  server :: server

record cors_options =
  origin :: string
  optionsSuccessStatus :: nat

record graphql_context =
  req :: request
  ctxUser :: "json option"

record graphql_options =
  schema :: string
  gqlContext :: graphql_context

record graphiql_options =
  endpointURL :: string

text \<open>
  The modules that \<open>app.js\<close> requires and whose code is elsewhere. Each is a parameter: a
  handler is any function of the request and the response.
\<close>

record env =
  helmetHeaders :: "(string \<times> string) list"
  renderPolicy :: "(string \<times> string list) list \<Rightarrow> string"
  static :: handler
  healthCheck :: handler
  passportInitialize :: handler
  requestLogger :: handler
  cookieParser :: handler
  urlencoded :: handler
  jsonParser :: handler
  corsPreflight :: "cors_options \<Rightarrow> request \<Rightarrow> response \<Rightarrow> response"
  corsActual :: "cors_options \<Rightarrow> handler"
  authRoutes :: handler
  mailerRoutes :: handler
  paymentRoutes :: handler
  verifyToken :: "request \<Rightarrow> json option"
  unauthorized :: "request \<Rightarrow> response \<Rightarrow> response"
  graphqlSchema :: string
  runHttpQuery :: "graphql_options \<Rightarrow> handler"
  graphiqlExpress :: "graphiql_options \<Rightarrow> handler"
  formatOther :: "json \<Rightarrow> formatted"

section \<open>Express dispatch\<close>

text \<open>
  \<open>app.js\<close> is a sequence of \<open>app.use\<close> calls. What the sequence means is given by the
  router of Express: the layers are tried in the order of their registration, a layer runs
  when its mount path matches the pathname and its arity fits the pending error, and it
  decides whether the next layer is tried.
\<close>

definition to_lower :: "char \<Rightarrow> char" where
  "to_lower c =
     (let n = (of_char c :: nat) in if 65 \<le> n \<and> n \<le> 90 then char_of (n + 32) else c)"

definition to_upper :: "char \<Rightarrow> char" where
  "to_upper c =
     (let n = (of_char c :: nat) in if 97 \<le> n \<and> n \<le> 122 then char_of (n - 32) else c)"

text \<open>
  The request target \<open>req.url\<close> is in origin form (\<open>/path?query\<close>), in absolute form
  (\<open>scheme://host/path?query\<close>) or neither (\<open>*\<close>). \<open>fqdn_index\<close> is the position of the
  first \<open>://\<close>, as \<open>indexOf\<close> gives it.
\<close>

fun fqdn_index :: "string \<Rightarrow> nat option" where
  "fqdn_index (a # b # c # cs) =
     (if a = CHR '':'' \<and> b = CHR ''/'' \<and> c = CHR ''/'' then Some 0
      else map_option Suc (fqdn_index (b # c # cs)))"
| "fqdn_index cs = None"

text \<open>
  \<open>getProtohost\<close> of the Express router: nothing for a target that starts with a slash;
  otherwise, when \<open>://\<close> stands before the query string, the target up to the next slash (and
  nothing when no slash follows).
\<close>

definition getProtohost :: "string \<Rightarrow> string" where
  "getProtohost u =
     (case u of
        [] \<Rightarrow> []
      | c # cs \<Rightarrow>
          (if c = CHR ''/'' then []
           else case fqdn_index (takeWhile (\<lambda>c. c \<noteq> CHR ''?'') u) of
                  None \<Rightarrow> []
                | Some i \<Rightarrow>
                    (if CHR ''/'' \<in> set (drop (i + 3) u)
                     then take (i + 3 + length (takeWhile (\<lambda>c. c \<noteq> CHR ''/'') (drop (i + 3) u))) u
                     else [])))"

text \<open>
  The pathname that the router matches, as \<open>parseurl\<close> gives it: the target before the query
  string and the fragment; of a target in absolute form, the path after the host, and \<open>/\<close>
  when there is none. Characters that \<open>url.parse\<close> rewrites in a target that is not a plain
  path (a backslash, a character that it escapes) are taken as they stand.
\<close>

definition path_end :: "char \<Rightarrow> bool" where
  "path_end c = (c = CHR ''?'' \<or> c = CHR ''#'')"

definition path_of :: "string \<Rightarrow> string" where
  "path_of u =
     (case u of
        [] \<Rightarrow> []
      | c # cs \<Rightarrow>
          (if c = CHR ''/'' then takeWhile (\<lambda>c. \<not> path_end c) u
           else case fqdn_index (takeWhile (\<lambda>c. c \<noteq> CHR ''?'') u) of
                  None \<Rightarrow> takeWhile (\<lambda>c. \<not> path_end c) u
                | Some i \<Rightarrow>
                    (case dropWhile (\<lambda>c. c \<noteq> CHR ''/'' \<and> \<not> path_end c) (drop (i + 3) u) of
                       [] \<Rightarrow> ''/''
                     | d # ds \<Rightarrow>
                         (if d = CHR ''/'' then takeWhile (\<lambda>c. \<not> path_end c) (d # ds)
                          else ''/''))))"

text \<open>
  \<open>app.use(path, fn)\<close> runs \<open>fn\<close> for every pathname that begins with \<open>path\<close>, compared without
  regard to case, and goes on with \<open>/\<close> or ends there. \<open>app.use(fn)\<close> mounts at the root, which
  is the empty mount here and matches every pathname.
\<close>

definition mount_match :: "string \<Rightarrow> string \<Rightarrow> bool" where
  "mount_match m p =
     (m = [] \<or>
      (prefix (map to_lower m) (map to_lower p) \<and>
       (case drop (length m) p of [] \<Rightarrow> True | c # cs \<Rightarrow> c = CHR ''/'')))"

text \<open>
  What a mount consumes of the pathname it matches: the prefix and, with it, the slash after it
  when the pathname ends there or goes on with another slash.
\<close>

definition matched_length :: "string \<Rightarrow> string \<Rightarrow> nat" where
  "matched_length m p =
     (case drop (length m) p of
        [] \<Rightarrow> length m
      | c # cs \<Rightarrow>
          (if c = CHR ''/'' \<and> (case cs of [] \<Rightarrow> True | d # ds \<Rightarrow> d = CHR ''/'')
           then length m + 1 else length m))"

text \<open>
  While a mounted handler runs, the matched part is cut off \<open>req.url\<close> behind the protocol and
  host (a leading slash is put back when the target has neither and the rest has no slash) and
  the mount path is appended to \<open>req.baseUrl\<close>; when the handler calls \<open>next\<close> both are
  restored, the removed part in front of whatever \<open>req.url\<close> then is.
\<close>

definition removed :: "string \<Rightarrow> request \<Rightarrow> string" where
  "removed m r = take (matched_length m (path_of (url r))) (path_of (url r))"

definition trimmed :: "string \<Rightarrow> request \<Rightarrow> string" where
  "trimmed m r = drop (length (getProtohost (url r)) + length (removed m r)) (url r)"

definition slash_added :: "string \<Rightarrow> request \<Rightarrow> bool" where
  "slash_added m r =
     (getProtohost (url r) = [] \<and>
      (case trimmed m r of [] \<Rightarrow> True | c # cs \<Rightarrow> c \<noteq> CHR ''/''))"

definition enter :: "string \<Rightarrow> request \<Rightarrow> request" where
  "enter m r =
     (if m = [] then r
      else r\<lparr>url := getProtohost (url r) @ (if slash_added m r then ''/'' else []) @ trimmed m r,
             reqBaseUrl := reqBaseUrl r @ take (length m) (path_of (url r))\<rparr>)"

definition leave :: "string \<Rightarrow> request \<Rightarrow> request \<Rightarrow> request" where
  "leave m r r' =
     (if m = [] then r'
      else r'\<lparr>url := getProtohost (url r) @ removed m r @
                      drop (length (getProtohost (url r)))
                        (if slash_added m r then drop 1 (url r') else url r'),
              reqBaseUrl := reqBaseUrl r\<rparr>)"

text \<open>
  What \<open>next\<close> was called with, as the router reads it: \<open>next('route')\<close> and a value that
  is not truthy (\<open>undefined\<close>, \<open>null\<close>, \<open>false\<close>, \<open>0\<close>, the empty string) are no error.
\<close>

fun truthy :: "json \<Rightarrow> bool" where
  "truthy JNull = False"
| "truthy (JBool b) = b"
| "truthy (JNum n) = (n \<noteq> 0)"
| "truthy (JStr cs) = (cs \<noteq> [])"
| "truthy (JArr vs) = True"
| "truthy (JObj kvs) = True"

definition live :: "json option \<Rightarrow> json option" where
  "live pend =
     (case pend of
        None \<Rightarrow> None
      | Some e \<Rightarrow> (if e = JStr ''route'' \<or> \<not> truthy e then None else Some e))"

text \<open>
  Whether a layer applies to a pathname while this error is pending: its mount matches, and its
  handler is of the arity that Express calls then. After \<open>next('router')\<close> the router is left:
  no layer applies any more.
\<close>

definition applies :: "layer \<Rightarrow> json option \<Rightarrow> string \<Rightarrow> bool" where
  "applies l pend p =
     (mount_match (mount l) p \<and>
      (case (action l, live pend) of
         (Plain h, None) \<Rightarrow> True
       | (OnError h, Some e) \<Rightarrow> e \<noteq> JStr ''router''
       | _ \<Rightarrow> False))"

definition invoke ::
  "layer \<Rightarrow> json option \<Rightarrow> request \<Rightarrow> response \<Rightarrow> (outcome \<times> log_entry list) option" where
  "invoke l pend r s =
     (if applies l pend (path_of (url r))
      then (case (action l, live pend) of
              (Plain h, None) \<Rightarrow> Some (h (enter (mount l) r) s)
            | (OnError h, Some e) \<Rightarrow> Some (h e (enter (mount l) r) s)
            | _ \<Rightarrow> None)
      else None)"

text \<open>
  The layers are tried in the order of their registration. The result is the outcome and the
  trace of the request: the stages entered and the log entries written, in order. An outcome
  other than \<open>Done\<close> at the end of the stack is a request that no layer of this file answered:
  \<open>Next\<close> when the layers are used up, \<open>Fail\<close> with the error that no layer took, and \<open>Fail\<close>
  with \<open>'router'\<close> when a handler left the router by \<open>next('router')\<close>.
\<close>

fun dispatch ::
  "layer list \<Rightarrow> json option \<Rightarrow> request \<Rightarrow> response \<Rightarrow> event list \<Rightarrow> outcome \<times> event list" where
  "dispatch [] pend r s tr = (case live pend of None \<Rightarrow> Next r s | Some e \<Rightarrow> Fail e r s, tr)"
| "dispatch (l # ls) pend r s tr =
     (case invoke l pend r s of
        None \<Rightarrow> dispatch ls pend r s tr
      | Some (out, logs) \<Rightarrow>
          (case out of
             Next r' s' \<Rightarrow>
               dispatch ls None (leave (mount l) r r') s' (tr @ Enter (stage l) # map Logged logs)
           | Done s' \<Rightarrow> (Done s', tr @ Enter (stage l) # map Logged logs)
           | Fail e r' s' \<Rightarrow>
               dispatch ls (Some e) (leave (mount l) r r') s'
                 (tr @ Enter (stage l) # map Logged logs)))"

text \<open>
  What the dispatcher does with the result of a handler that it called for a layer mounted at
  \<open>m\<close>, the stage already being in the trace: the second half of a step of \<open>dispatch\<close>.
\<close>

definition continue ::
  "layer list \<Rightarrow> string \<Rightarrow> request \<Rightarrow> outcome \<times> log_entry list \<Rightarrow> event list
     \<Rightarrow> outcome \<times> event list" where
  "continue ls m r res tr =
     (case res of
        (Next r' s', logs) \<Rightarrow> dispatch ls None (leave m r r') s' (tr @ map Logged logs)
      | (Done s', logs) \<Rightarrow> (Done s', tr @ map Logged logs)
      | (Fail e r' s', logs) \<Rightarrow> dispatch ls (Some e) (leave m r r') s' (tr @ map Logged logs))"



section \<open>The stages of \<open>app.js\<close>\<close>

definition baseUrl :: string where
  "baseUrl = ''/api''"

definition graphqlUrl :: string where
  "graphqlUrl = baseUrl @ ''/graphql''"

subsection \<open>Security headers\<close>

text \<open>\<open>res.setHeader\<close>: a header of the same name, whatever its case, is replaced.\<close>

definition set_header :: "string \<Rightarrow> string \<Rightarrow> response \<Rightarrow> response" where
  "set_header k v s =
     s\<lparr>resHeaders :=
         (k, v) # filter (\<lambda>(k', v'). map to_lower k' \<noteq> map to_lower k) (resHeaders s)\<rparr>"

text \<open>
  Modelled from the spec: the \<open>helmet\<close> package is not part of this file. \<open>helmet()\<close> attaches
  its fixed set of response headers (a parameter) and passes the request on; it has no other
  effect and does not fail.
\<close>

definition helmet :: "env \<Rightarrow> handler" where
  "helmet e r s = (Next r (fold (\<lambda>(k, v). set_header k v) (helmetHeaders e) s), [])"

text \<open>
  Modelled from the spec: \<open>helmet.referrerPolicy({ policy })\<close>, of the same package, attaches
  the referrer policy it is given and passes the request on.
\<close>

definition helmet_referrerPolicy :: "string \<Rightarrow> handler" where
  "helmet_referrerPolicy policy r s = (Next r (set_header ''Referrer-Policy'' policy s), [])"

text \<open>
  Modelled from the spec: \<open>helmet.contentSecurityPolicy({ directives })\<close>, of the same
  package, attaches the policy rendered from the directives (the rendering is a parameter) and
  passes the request on.
\<close>

definition helmet_contentSecurityPolicy :: "env \<Rightarrow> (string \<times> string list) list \<Rightarrow> handler" where
  "helmet_contentSecurityPolicy e directives r s =
     (Next r (set_header ''Content-Security-Policy'' (renderPolicy e directives) s), [])"

subsection \<open>CORS\<close>

text \<open>
  Modelled from the spec: the \<open>cors\<close> package is not part of this file. A preflight (any
  \<open>OPTIONS\<close> request) is answered by the stage itself with the configured
  \<open>optionsSuccessStatus\<close> and no body; the headers it writes are a parameter. What the
  stage does with any other request is a parameter too.
\<close>

definition cors :: "env \<Rightarrow> cors_options \<Rightarrow> handler" where
  "cors e opts r s =
     (if map to_upper (method r) = ''OPTIONS''
      then (Done ((corsPreflight e opts r s)\<lparr>status := optionsSuccessStatus opts,
                                             resBody := None\<rparr>), [])
      else corsActual e opts r s)"

subsection \<open>Token verification\<close>

text \<open>
  Modelled from the spec: \<open>middleware/verify-jwt\<close> is not part of this file. The gate
  inspects the request for a bearer credential (\<open>verifyToken\<close>, a parameter, gives the decoded
  identity of a valid one); without a valid one it answers with the authentication failure
  (\<open>unauthorized\<close>, a parameter) and calls nothing further; with one it attaches the identity
  to the request as \<open>req.user\<close> and continues.
\<close>

definition verifyJwt :: "env \<Rightarrow> handler" where
  "verifyJwt e r s =
     (case verifyToken e r of
        None \<Rightarrow> (Done (unauthorized e r s), [])
      | Some u \<Rightarrow> (Next (r\<lparr>user := Some u\<rparr>) s, []))"

subsection \<open>GraphQL\<close>

text \<open>The options function of \<open>app.js\<close>: \<open>req => ({ schema, context: { req, user: req.user } })\<close>.\<close>

definition graphqlOptions :: "env \<Rightarrow> request \<Rightarrow> graphql_options" where
  "graphqlOptions e r =
     \<lparr>schema = graphqlSchema e, gqlContext = \<lparr>req = r, ctxUser = user r\<rparr>\<rparr>"

text \<open>
  Modelled from the spec: \<open>apollo-server-express\<close> is not part of this file.
  \<open>graphqlExpress(options)\<close> executes GraphQL (\<open>runHttpQuery\<close>, a parameter) with the options
  that the given function yields for the request.
\<close>

definition graphqlExpress :: "env \<Rightarrow> (request \<Rightarrow> graphql_options) \<Rightarrow> handler" where
  "graphqlExpress e options r s = runHttpQuery e (options r) r s"

subsection \<open>Terminal handlers\<close>

fun field :: "string \<Rightarrow> json \<Rightarrow> json option" where
  "field k (JObj kvs) = map_of kvs k"
| "field k v = None"

definition decimal :: "string \<Rightarrow> nat" where
  "decimal ds = foldl (\<lambda>n c. 10 * n + (of_char c - 48)) 0 ds"

text \<open>How an entry of the error list is written to the body.\<close>

definition item_json :: "error_item \<Rightarrow> json" where
  "item_json i =
     JObj [(''statusCode'', JStr (itemStatusCode i)), (''message'', JStr (itemMessage i)),
           (''code'', JStr (itemCode i)), (''meta'', itemMeta i)]"

definition text_of :: "json option \<Rightarrow> string" where
  "text_of v = (case v of Some (JStr cs) \<Rightarrow> cs | _ \<Rightarrow> [])"

text \<open>
  Modelled from the spec: \<open>local-error-handler\<close> is not part of this file. A sub-error of an
  AppError is read as an entry of the wire-level list.
\<close>

definition item_of :: "json \<Rightarrow> error_item" where
  "item_of v =
     ErrorItem (text_of (field ''statusCode'' v)) (text_of (field ''message'' v))
       (text_of (field ''code'' v))
       (case field ''meta'' v of Some m \<Rightarrow> m | None \<Rightarrow> JObj [])"

text \<open>
  Modelled from the spec: \<open>local-error-handler\<close> is not part of this file. An AppError (an
  object named \<open>AppError\<close>, with a message, a status code and a list of sub-errors) is mapped
  to its message, its status code as a number and its sub-errors as the wire-level list; any
  other error shape is normalized first (\<open>formatOther\<close>, a parameter).
\<close>

definition formatError :: "env \<Rightarrow> json \<Rightarrow> formatted" where
  "formatError e err =
     (if field ''name'' err = Some (JStr ''AppError'')
      then \<lparr>message = (case field ''message'' err of Some (JStr m) \<Rightarrow> m | _ \<Rightarrow> []),
            statusCode = (case field ''statusCode'' err of
                            Some (JStr ds) \<Rightarrow> decimal ds
                          | Some (JNum n) \<Rightarrow> nat n
                          | _ \<Rightarrow> 0),
            jsonResponse = (case field ''errors'' err of
                              Some (JArr es) \<Rightarrow> map item_of es
                            | _ \<Rightarrow> [])\<rparr>
      else formatOther e err)"

definition formatted_json :: "formatted \<Rightarrow> json" where
  "formatted_json f =
     JObj [(''message'', JStr (message f)), (''statusCode'', JNum (int (statusCode f))),
           (''jsonResponse'', JArr (map item_json (jsonResponse f)))]"

text \<open>The object literal \<open>appError\<close> of the unknown-route handler.\<close>

definition appError :: "request \<Rightarrow> json" where
  "appError r =
     JObj [(''name'', JStr ''AppError''),
           (''message'', JStr ''Unknown route requested''),
           (''statusCode'', JStr ''404''),
           (''errors'', JArr [JObj [(''statusCode'', JStr ''404''),
                                   (''message'', JStr ''Unknown route requested''),
                                   (''code'', JStr ''UNKNOWN_ROUTE''),
                                   (''meta'', JObj [(''route'', JStr (url r))])]])]"

text \<open>
  Both handlers log and then end the response with
  \<open>res.status(err.statusCode).json({ errors: err.jsonResponse })\<close>. The response record keeps
  the status, the body and the headers that the stages set.
\<close>

definition unknownRoute :: "env \<Rightarrow> handler" where
  "unknownRoute e r s =
     (let err = formatError e (appError r)
      in (Done (s\<lparr>status := statusCode err,
                  resBody := Some (JObj [(''errors'', JArr (map item_json (jsonResponse err)))])\<rparr>),
          [(Warn, JObj [(''response'', appError r)], ''APP-MIDDLEWARE: '' @ message err)]))"

definition errorMiddleware :: "env \<Rightarrow> json \<Rightarrow> handler" where
  "errorMiddleware e error r s =
     (let err = formatError e error
      in (Done (s\<lparr>status := statusCode err,
                  resBody := Some (JObj [(''errors'', JArr (map item_json (jsonResponse err)))])\<rparr>),
          [(Error, JObj [(''err'', error), (''response'', formatted_json err)],
            ''APP-MIDDLEWARE: '' @ message err)]))"




subsection \<open>The layer stack\<close>

text \<open>The \<open>app.use\<close> calls of \<open>app.js\<close>, in their order, in the four groups of the file.\<close>

definition securityHeaders :: "config \<Rightarrow> env \<Rightarrow> layer list" where
  "securityHeaders c e =
     [Layer [] Helmet (Plain (helmet e)),
      Layer [] ReferrerPolicy (Plain (helmet_referrerPolicy ''same-origin'')),
      Layer [] ContentSecurityPolicy
        (Plain (helmet_contentSecurityPolicy e (contentSecurityPolicy c)))]"

definition globalMiddleware :: "env \<Rightarrow> layer list" where
  "globalMiddleware e =
     [Layer ''/public'' Static (Plain (static e)),
      Layer ''/health-check'' HealthCheck (Plain (healthCheck e)),
      Layer [] PassportInitialize (Plain (passportInitialize e)),
      Layer [] RequestLogger (Plain (requestLogger e)),
      Layer [] CookieParser (Plain (cookieParser e)),
      Layer [] Urlencoded (Plain (urlencoded e)),
      Layer [] JsonParser (Plain (jsonParser e)),
      Layer [] Cors
        (Plain (cors e \<lparr>origin = ''http://localhost:8080'', optionsSuccessStatus = 200\<rparr>))]"

definition routes :: "config \<Rightarrow> env \<Rightarrow> layer list" where
  "routes c e =
     [Layer (baseUrl @ ''/auth'') AuthRoutes (Plain (authRoutes e)),
      Layer (baseUrl @ ''/mailer'') MailerRoutes (Plain (mailerRoutes e)),
      Layer (baseUrl @ ''/payments'') VerifyJwt (Plain (verifyJwt e)),
      Layer (baseUrl @ ''/payments'') PaymentRoutes (Plain (paymentRoutes e)),
      Layer graphqlUrl VerifyJwt (Plain (verifyJwt e)),
      Layer graphqlUrl GraphqlExpress (Plain (graphqlExpress e (graphqlOptions e)))] @
     (if docs (server c)
      then [Layer (baseUrl @ ''/docs'') GraphiqlExpress
              (Plain (graphiqlExpress e \<lparr>endpointURL = graphqlUrl\<rparr>))]
      else [])"

definition terminals :: "env \<Rightarrow> layer list" where
  "terminals e =
     [Layer [] UnknownRoute (Plain (unknownRoute e)),
      Layer [] ErrorMiddleware (OnError (errorMiddleware e))]"

definition router :: "config \<Rightarrow> env \<Rightarrow> layer list" where
  "router c e = routes c e @ terminals e"

definition app :: "config \<Rightarrow> env \<Rightarrow> layer list" where
  "app c e = securityHeaders c e @ globalMiddleware e @ router c e"

text \<open>The response as the three security-header stages leave it.\<close>

definition secured :: "config \<Rightarrow> env \<Rightarrow> response \<Rightarrow> response" where
  "secured c e s =
     set_header ''Content-Security-Policy'' (renderPolicy e (contentSecurityPolicy c))
       (set_header ''Referrer-Policy'' ''same-origin''
          (fold (\<lambda>(k, v). set_header k v) (helmetHeaders e) s))"

text \<open>A pathname that none of the route prefixes matches.\<close>

definition unrouted :: "config \<Rightarrow> env \<Rightarrow> string \<Rightarrow> bool" where
  "unrouted c e p = list_all (\<lambda>l. \<not> mount_match (mount l) p) (routes c e)"

text \<open>A fresh response has status 200, no header and no body.\<close>

definition fresh :: response where
  "fresh = \<lparr>status = 200, resHeaders = [], resBody = None\<rparr>"

definition handle :: "config \<Rightarrow> env \<Rightarrow> request \<Rightarrow> outcome \<times> event list" where
  "handle c e r = dispatch (app c e) None r fresh []"

section \<open>Sample collaborators\<close>

text \<open>A configuration, collaborators and requests on which the stack can be run.\<close>

definition pass :: handler where
  "pass r s = (Next r s, [])"

definition answer :: "json \<Rightarrow> handler" where
  "answer v r s = (Done (s\<lparr>resBody := Some v\<rparr>), [])"

definition sampleConfig :: config where
  "sampleConfig =
     \<lparr>contentSecurityPolicy = [(''defaultSrc'', [''self''])],
      server = \<lparr>port = 3000, docs = False\<rparr>\<rparr>"

definition sampleToken :: "request \<Rightarrow> json option" where
  "sampleToken r =
     (if map_of (headers r) ''authorization'' = Some ''Bearer good''
      then Some (JObj [(''sub'', JStr ''alice'')]) else None)"

definition sampleEnv :: env where
  "sampleEnv =
     \<lparr>helmetHeaders = [(''X-Frame-Options'', ''SAMEORIGIN'')],
      renderPolicy = (\<lambda>ds. concat (map (\<lambda>(k, vs). k @ concat (map (\<lambda>v. '' '' @ v) vs)) ds)),
      static = pass,
      healthCheck = answer (JObj [(''uptime'', JNum 1)]),
      passportInitialize = pass,
      requestLogger = pass,
      cookieParser = pass,
      urlencoded = pass,
      jsonParser = pass,
      corsPreflight = (\<lambda>opts r s. s),
      corsActual = (\<lambda>opts. pass),
      authRoutes = answer (JStr ''auth''),
      mailerRoutes = answer (JStr ''mailer''),
      paymentRoutes = answer (JStr ''payments''),
      verifyToken = sampleToken,
      unauthorized = (\<lambda>r s. s\<lparr>status := 401\<rparr>),
      graphqlSchema = ''schema'',
      runHttpQuery = (\<lambda>opts r s. (Done (s\<lparr>resBody := ctxUser (gqlContext opts)\<rparr>), [])),
      graphiqlExpress = (\<lambda>opts. answer (JStr (endpointURL opts))),
      formatOther =
        (\<lambda>err. \<lparr>message = ''Internal error'', statusCode = 500,
                jsonResponse = [ErrorItem ''500'' ''Internal error'' ''INTERNAL'' (JObj [])]\<rparr>)\<rparr>"

definition sampleConfigDocs :: config where
  "sampleConfigDocs = sampleConfig\<lparr>server := \<lparr>port = 3000, docs = True\<rparr>\<rparr>"



definition sampleRequest :: "string \<Rightarrow> string \<Rightarrow> request" where
  "sampleRequest m u =
     \<lparr>method = m, url = u, reqBaseUrl = [], headers = [], body = None, user = None\<rparr>"

section \<open>Properties of the dispatcher\<close>

lemma mounts_eval:
  "baseUrl @ ''/auth'' = ''/api/auth''"
  "baseUrl @ ''/mailer'' = ''/api/mailer''"
  "baseUrl @ ''/payments'' = ''/api/payments''"
  "baseUrl @ ''/docs'' = ''/api/docs''"
  "graphqlUrl = ''/api/graphql''"
  by (simp_all add: baseUrl_def graphqlUrl_def)

lemma live_simps:
  "live None = None"
  "live (Some (JStr ''route'')) = None"
  "live (Some (JStr ''router'')) = Some (JStr ''router'')"
  "live (live pend) = live pend"
  by (auto simp: live_def split: option.splits)


lemma applies_live: "applies l (live pend) p = applies l pend p"
  by (simp add: applies_def live_simps)

lemma invoke_live: "invoke l (live pend) r s = invoke l pend r s"
  by (simp add: invoke_def applies_live live_simps)

lemma dispatch_live: "dispatch ls (live pend) r s tr = dispatch ls pend r s tr"
proof (induction ls arbitrary: pend r s tr)
  case Nil
  show ?case by (simp add: live_simps)
next
  case (Cons l ls)
  show ?case
    by (simp add: invoke_live Cons.IH split: option.splits prod.splits outcome.splits)
qed

lemma invoke_Layer:
  "invoke (Layer m st (Plain h)) None r s =
     (if mount_match m (path_of (url r)) then Some (h (enter m r) s) else None)"
  "live (Some err) = Some err \<Longrightarrow> invoke (Layer m st (Plain h)) (Some err) r s = None"
  "live (Some err) = Some err \<Longrightarrow> err \<noteq> JStr ''router'' \<Longrightarrow>
   invoke (Layer m st (OnError h')) (Some err) r s =
     (if mount_match m (path_of (url r)) then Some (h' err (enter m r) s) else None)"
  "invoke (Layer m st (OnError h')) None r s = None"
  by (simp_all add: invoke_def applies_def live_simps)

lemma mount_match_Nil: "mount_match [] p"
  by (simp add: mount_match_def)

lemma enter_Nil: "enter [] r = r"
  by (simp add: enter_def)

lemma leave_Nil: "leave [] r r' = r'"
  by (simp add: leave_def)

lemma formatError_appError:
  "formatError e (appError r) =
     \<lparr>message = ''Unknown route requested'', statusCode = 404,
      jsonResponse = [ErrorItem ''404'' ''Unknown route requested'' ''UNKNOWN_ROUTE''
                        (JObj [(''route'', JStr (url r))])]\<rparr>"
  by (simp add: formatError_def appError_def decimal_def item_of_def text_of_def)

lemma dispatch_append:
  "dispatch (xs @ ys) pend r s tr =
     (case dispatch xs pend r s tr of
        (Next r' s', tr') \<Rightarrow> dispatch ys None r' s' tr'
      | (Done s', tr') \<Rightarrow> (Done s', tr')
      | (Fail err r' s', tr') \<Rightarrow> dispatch ys (Some err) r' s' tr')"
proof (induction xs arbitrary: pend r s tr)
  case Nil
  show ?case
  proof (cases "live pend")
    case None
    then show ?thesis using dispatch_live [of ys pend r s tr] by simp
  next
    case (Some e)
    then show ?thesis using dispatch_live [of ys pend r s tr] by simp
  qed
next
  case (Cons l ls)
  show ?case
    by (simp add: Cons.IH split: option.splits prod.splits outcome.splits)
qed

lemma dispatch_skip:
  "list_all (\<lambda>l. \<not> applies l pend (path_of (url r))) ls \<Longrightarrow>
   dispatch (ls @ ys) pend r s tr = dispatch ys pend r s tr"
  by (induction ls) (simp_all add: invoke_def)

lemma dispatch_trace:
  "dispatch ls pend r s tr = (out, tr') \<Longrightarrow>
   \<exists>evs. tr' = tr @ evs \<and> (\<forall>st. Enter st \<in> set evs \<longrightarrow> st \<in> stage ` set ls)"
proof (induction ls arbitrary: pend r s tr)
  case Nil
  then show ?case by simp
next
  case (Cons l ls)
  show ?case
  proof (cases "invoke l pend r s")
    case None
    with Cons.prems have "dispatch ls pend r s tr = (out, tr')" by simp
    from Cons.IH [OF this] show ?thesis by auto
  next
    case (Some res)
    obtain o' logs where res: "res = (o', logs)" by (cases res)
    let ?tr = "tr @ Enter (stage l) # map Logged logs"
    show ?thesis
    proof (cases o')
      case (Next r' s')
      with Some res Cons.prems
      have "dispatch ls None (leave (mount l) r r') s' ?tr = (out, tr')" by simp
      from Cons.IH [OF this] show ?thesis by auto
    next
      case (Done s')
      with Some res Cons.prems have "tr' = ?tr" by simp
      then show ?thesis by auto
    next
      case (Fail err r' s')
      with Some res Cons.prems
      have "dispatch ls (Some err) (leave (mount l) r r') s' ?tr = (out, tr')" by simp
      from Cons.IH [OF this] show ?thesis by auto
    qed
  qed
qed

lemma dispatch_terminals_None:
  "dispatch (terminals e) None r s tr =
     (Done (s\<lparr>status := 404,
               resBody := Some (JObj [(''errors'',
                 JArr [JObj [(''statusCode'', JStr ''404''),
                             (''message'', JStr ''Unknown route requested''),
                             (''code'', JStr ''UNKNOWN_ROUTE''),
                             (''meta'', JObj [(''route'', JStr (url r))])]])])\<rparr>),
      tr @ [Enter UnknownRoute,
            Logged (Warn, JObj [(''response'', appError r)],
                    ''APP-MIDDLEWARE: Unknown route requested'')])"
  by (simp add: terminals_def invoke_Layer mount_match_Nil enter_Nil unknownRoute_def
      formatError_appError item_json_def)



section \<open>The request target\<close>

lemma fqdn_index_bound: "fqdn_index xs = Some i \<Longrightarrow> i + 3 \<le> length xs"
  by (induction xs arbitrary: i rule: fqdn_index.induct) (auto split: if_splits)

lemma fqdn_index_take_Suc:
  "fqdn_index xs = Some i \<Longrightarrow>
   take (Suc (Suc (Suc i))) ys = take (Suc (Suc (Suc i))) xs \<Longrightarrow> fqdn_index ys = Some i"
proof (induction xs arbitrary: i ys rule: fqdn_index.induct)
  case (1 a b c cs)
  show ?case
  proof (cases "a = CHR '':'' \<and> b = CHR ''/'' \<and> c = CHR ''/''")
    case True
    with "1.prems" have i: "i = 0" by simp
    with "1.prems"(2) obtain zs where "ys = a # b # c # zs"
      by (cases ys; cases "tl ys"; cases "tl (tl ys)") auto
    with True i show ?thesis by simp
  next
    case False
    with "1.prems"(1) obtain j where j: "fqdn_index (b # c # cs) = Some j" and i: "i = Suc j"
      by auto
    from "1.prems"(2) i obtain zs where ys: "ys = a # zs" and
      zs: "take (Suc (Suc (Suc j))) zs = take (Suc (Suc (Suc j))) (b # c # cs)"
      by (cases ys) auto
    have z: "fqdn_index zs = Some j"
      using "1.IH" [OF False j zs] .
    from zs obtain b' c' zs' where zs': "zs = b' # c' # zs'"
      by (cases zs; cases "tl zs") auto
    with zs have "b' = b" "c' = c" by auto
    with ys zs' z False i show ?thesis by simp
  qed
qed simp_all

lemma fqdn_index_take:
  "fqdn_index xs = Some i \<Longrightarrow> take (i + 3) ys = take (i + 3) xs \<Longrightarrow> fqdn_index ys = Some i"
  using fqdn_index_take_Suc [of xs i ys] by (simp add: numeral_3_eq_3)

lemma takeWhile_conj:
  "dropWhile (\<lambda>c. P c \<and> Q c) xs = d # ds \<Longrightarrow> \<not> P d \<Longrightarrow>
   takeWhile P xs = takeWhile (\<lambda>c. P c \<and> Q c) xs"
  by (induction xs) (auto split: if_splits)

lemma take_takeWhile:
  assumes "k \<le> length (takeWhile P xs)"
  shows "take k (takeWhile P xs) = take k xs"
proof -
  have "take k xs = take k (takeWhile P xs @ dropWhile P xs)"
    by simp
  also have "\<dots> = take k (takeWhile P xs)"
    using assms by (simp del: takeWhile_dropWhile_id)
  finally show ?thesis by simp
qed

lemma abs_parse:
  assumes ne: "v \<noteq> []" and hd: "hd v \<noteq> CHR ''/''"
    and fq: "fqdn_index (takeWhile (\<lambda>c. c \<noteq> CHR ''?'') v) = Some i"
    and D: "drop (i + 3) v = host @ CHR ''/'' # w"
    and ok: "\<And>x. x \<in> set host \<Longrightarrow> x \<noteq> CHR ''/'' \<and> \<not> path_end x"
  shows "getProtohost v = take (i + 3 + length host) v"
    and "path_of v = takeWhile (\<lambda>c. \<not> path_end c) (CHR ''/'' # w)"
proof -
  have tw: "takeWhile (\<lambda>c. c \<noteq> CHR ''/'') (host @ CHR ''/'' # w) = host"
    using ok by (simp add: takeWhile_append2)
  have dw: "dropWhile (\<lambda>c. c \<noteq> CHR ''/'' \<and> \<not> path_end c) (host @ CHR ''/'' # w) = CHR ''/'' # w"
    using ok by (simp add: dropWhile_append2)
  show "getProtohost v = take (i + 3 + length host) v"
    unfolding getProtohost_def list.case_eq_if
    using ne hd by (simp only: fq D tw if_False option.case) simp
  show "path_of v = takeWhile (\<lambda>c. \<not> path_end c) (CHR ''/'' # w)"
    unfolding path_of_def list.case_eq_if
    using ne hd by (simp only: fq D dw if_False option.case list.case list.sel) simp
qed

lemma take_add_append: "length A = n \<Longrightarrow> take (n + k) (A @ D) = A @ take k D"
  by simp

lemma take_exact_append: "length A = n \<Longrightarrow> take n (A @ D) = A"
  by simp

lemma drop_exact_append: "length A = n \<Longrightarrow> drop n (A @ D) = D"
  by simp

lemma target_rebuild_absolute:
  assumes u: "u = c # cs" and c: "c \<noteq> CHR ''/''"
    and fq: "fqdn_index (takeWhile (\<lambda>c. c \<noteq> CHR ''?'') u) = Some i"
    and dw: "dropWhile (\<lambda>c. c \<noteq> CHR ''/'' \<and> \<not> path_end c) (drop (i + 3) u) = CHR ''/'' # ds"
  shows "u = getProtohost u @ CHR ''/'' # ds"
    and "getProtohost (getProtohost u @ CHR ''/'' # w') = getProtohost u"
    and "path_of (getProtohost u @ CHR ''/'' # w') = takeWhile (\<lambda>c. \<not> path_end c) (CHR ''/'' # w')"
proof -
  define A where "A = take (i + 3) u"
  define D where "D = drop (i + 3) u"
  define host where "host = takeWhile (\<lambda>c. c \<noteq> CHR ''/'' \<and> \<not> path_end c) D"
  define T where "T = takeWhile (\<lambda>c. c \<noteq> CHR ''?'') u"
  have uA: "u = A @ D"
    by (simp add: A_def D_def)
  have D: "D = host @ CHR ''/'' # ds"
  proof -
    have "D = host @ dropWhile (\<lambda>c. c \<noteq> CHR ''/'' \<and> \<not> path_end c) D"
      unfolding host_def by simp
    then show ?thesis using dw by (simp add: D_def)
  qed
  have host_ok: "\<And>x. x \<in> set host \<Longrightarrow> x \<noteq> CHR ''/'' \<and> \<not> path_end x"
    unfolding host_def by (auto dest: set_takeWhileD)
  have lenT: "i + 3 \<le> length T"
    using fq unfolding T_def by (rule fqdn_index_bound)
  have "length T \<le> length u"
    unfolding T_def by (rule length_takeWhile_le)
  with lenT have lenA: "length A = i + 3"
    by (simp add: A_def)
  have AT: "take (i + 3) T = A"
    unfolding T_def A_def using lenT [unfolded T_def] by (rule take_takeWhile)
  have A_ok: "\<And>x. x \<in> set A \<Longrightarrow> x \<noteq> CHR ''?''"
  proof -
    fix x assume "x \<in> set A"
    then have "x \<in> set T" using AT by (auto dest: in_set_takeD)
    then show "x \<noteq> CHR ''?''" unfolding T_def by (auto dest: set_takeWhileD)
  qed
  have une: "u \<noteq> []" and uhd: "hd u \<noteq> CHR ''/''"
    using u c by simp_all
  have Ane: "A \<noteq> []"
    using lenA by auto
  have Dd: "drop (i + 3) u = host @ CHR ''/'' # ds"
    using D by (simp add: D_def)
  have "getProtohost u = take (i + 3 + length host) u"
    using une uhd fq Dd host_ok by (rule abs_parse(1))
  also have "\<dots> = A @ take (length host) D"
    unfolding uA using lenA by (rule take_add_append)
  also have "take (length host) D = host"
    unfolding D by simp
  finally have ph: "getProtohost u = A @ host" .
  show "u = getProtohost u @ CHR ''/'' # ds"
    unfolding ph using uA D by simp
  define v where "v = A @ host @ CHR ''/'' # w'"
  have vne: "v \<noteq> []"
    using Ane by (simp add: v_def)
  have "hd v = hd A"
    using Ane by (simp add: v_def)
  also have "\<dots> = hd u"
    using Ane by (simp add: uA)
  finally have vhd: "hd v \<noteq> CHR ''/''"
    using uhd by simp
  have Tv: "takeWhile (\<lambda>c. c \<noteq> CHR ''?'') v =
      A @ takeWhile (\<lambda>c. c \<noteq> CHR ''?'') (host @ CHR ''/'' # w')"
    unfolding v_def by (rule takeWhile_append2) (rule A_ok)
  have "take (i + 3) (takeWhile (\<lambda>c. c \<noteq> CHR ''?'') v) = A"
    unfolding Tv using lenA by (rule take_exact_append)
  then have "take (i + 3) (takeWhile (\<lambda>c. c \<noteq> CHR ''?'') v) = take (i + 3) T"
    using AT by simp
  with fq [folded T_def] have fqv: "fqdn_index (takeWhile (\<lambda>c. c \<noteq> CHR ''?'') v) = Some i"
    by (rule fqdn_index_take)
  have Dv: "drop (i + 3) v = host @ CHR ''/'' # w'"
    unfolding v_def using lenA by (rule drop_exact_append)
  have "getProtohost v = take (i + 3 + length host) v"
    using vne vhd fqv Dv host_ok by (rule abs_parse(1))
  also have "\<dots> = A @ take (length host) (host @ CHR ''/'' # w')"
    unfolding v_def using lenA by (rule take_add_append)
  finally have phv: "getProtohost v = A @ host"
    by simp
  show "getProtohost (getProtohost u @ CHR ''/'' # w') = getProtohost u"
    using phv unfolding v_def ph by simp
  have "path_of v = takeWhile (\<lambda>c. \<not> path_end c) (CHR ''/'' # w')"
    using vne vhd fqv Dv host_ok by (rule abs_parse(2))
  then show "path_of (getProtohost u @ CHR ''/'' # w') =
      takeWhile (\<lambda>c. \<not> path_end c) (CHR ''/'' # w')"
    unfolding v_def ph by simp
qed

lemma target_rebuild:
  assumes p: "path_of u = CHR ''/'' # q" and q: "q \<noteq> []"
  obtains w where "u = getProtohost u @ CHR ''/'' # w"
    and "\<And>w'. getProtohost (getProtohost u @ CHR ''/'' # w') = getProtohost u"
    and "\<And>w'. path_of (getProtohost u @ CHR ''/'' # w') =
           takeWhile (\<lambda>c. \<not> path_end c) (CHR ''/'' # w')"
proof (cases u)
  case Nil
  with p show ?thesis by (simp add: path_of_def)
next
  case (Cons c cs)
  show ?thesis
  proof (cases "c = CHR ''/''")
    case True
    have "getProtohost u = []"
      using Cons True by (simp add: getProtohost_def)
    moreover have "\<And>w'. getProtohost (CHR ''/'' # w') = []"
      by (simp add: getProtohost_def)
    moreover have "\<And>w'. path_of (CHR ''/'' # w') = takeWhile (\<lambda>c. \<not> path_end c) (CHR ''/'' # w')"
      by (simp add: path_of_def)
    ultimately show ?thesis
      using that [of cs] Cons True by simp
  next
    case False
    show ?thesis
    proof (cases "fqdn_index (takeWhile (\<lambda>c. c \<noteq> CHR ''?'') u)")
      case None
      have "path_of u = takeWhile (\<lambda>c. \<not> path_end c) u"
        using Cons False None by (simp add: path_of_def)
      then have "path_of u = [] \<or> hd (path_of u) = c"
        using Cons by (simp split: if_splits)
      with p False show ?thesis by auto
    next
      case (Some i)
      have une: "u \<noteq> []" and uhd: "hd u \<noteq> CHR ''/''"
        using Cons False by simp_all
      show ?thesis
      proof (cases "dropWhile (\<lambda>c. c \<noteq> CHR ''/'' \<and> \<not> path_end c) (drop (i + 3) u)")
        case Nil
        have "path_of u = ''/''"
          unfolding path_of_def list.case_eq_if
          using une uhd by (simp only: Some Nil if_False option.case list.case) simp
        with p q show ?thesis by simp
      next
        case (Cons d ds)
        show ?thesis
        proof (cases "d = CHR ''/''")
          case True
          with Cons have dw: "dropWhile (\<lambda>c. c \<noteq> CHR ''/'' \<and> \<not> path_end c) (drop (i + 3) u) =
              CHR ''/'' # ds"
            by simp
          from target_rebuild_absolute [OF \<open>u = c # cs\<close> False Some dw] that [of ds]
          show ?thesis by blast
        next
          case d: False
          have "path_of u = ''/''"
            unfolding path_of_def list.case_eq_if
            using une uhd d
            by (simp only: Some Cons if_False option.case list.case list.sel) simp
          with p q show ?thesis by simp
        qed
      qed
    qed
  qed
qed

section \<open>Entering and leaving a mounted layer\<close>

lemma to_lower_slash: "to_lower c = CHR ''/'' \<longleftrightarrow> c = CHR ''/''"
proof
  assume a: "to_lower c = CHR ''/''"
  define n where "n = (of_char c :: nat)"
  show "c = CHR ''/''"
  proof (cases "65 \<le> n \<and> n \<le> 90")
    case True
    then have "to_lower c = (char_of (n + 32) :: char)"
      by (simp add: to_lower_def Let_def n_def)
    with a have "(char_of (n + 32) :: char) = CHR ''/''"
      by simp
    then have "(of_char (char_of (n + 32) :: char) :: nat) = of_char (CHR ''/'')"
      by (rule arg_cong)
    then have b: "(n + 32) mod 256 = 47"
      by (simp only: of_char_of) simp
    from True have "n + 32 < 256" by linarith
    then have "(n + 32) mod 256 = n + 32" by (rule mod_less)
    with True b show ?thesis by linarith
  next
    case False
    then have "to_lower c = c"
      unfolding to_lower_def Let_def n_def by (rule if_not_P)
    with a show ?thesis by simp
  qed
next
  assume "c = CHR ''/''"
  then show "to_lower c = CHR ''/''" by (simp add: to_lower_def)
qed

lemma match_under:
  "mount_match m p \<Longrightarrow> m \<noteq> [] \<Longrightarrow> prefix (map to_lower m) (map to_lower p)"
  by (simp add: mount_match_def)

lemma match_slash:
  assumes "mount_match (CHR ''/'' # m') p"
  obtains q where "p = CHR ''/'' # q" and "length m' \<le> length q"
proof -
  from assms have "prefix (map to_lower (CHR ''/'' # m')) (map to_lower p)"
    by (rule match_under) simp
  then obtain z where z: "map to_lower p = to_lower (CHR ''/'') # map to_lower m' @ z"
    by (auto simp: prefix_def)
  then obtain c q where p: "p = c # q" and c: "to_lower c = to_lower (CHR ''/'')"
    and q: "map to_lower q = map to_lower m' @ z"
    by (cases p) auto
  from c have "c = CHR ''/''"
    using to_lower_slash [of c] to_lower_slash [of "CHR ''/''"] by simp
  moreover have "length m' \<le> length q"
    using arg_cong [OF q, of length] by simp
  ultimately show ?thesis using that p by simp
qed

lemma matched_length_bounds:
  assumes "length m \<le> length p"
  shows "length m \<le> matched_length m p" and "matched_length m p \<le> length p"
proof -
  show "length m \<le> matched_length m p"
    by (simp add: matched_length_def split: list.splits)
  show "matched_length m p \<le> length p"
  proof (cases "drop (length m) p")
    case Nil
    then show ?thesis using assms by (simp add: matched_length_def)
  next
    case (Cons c cs)
    then have "length m < length p"
      by (metis drop_eq_Nil list.distinct(1) not_le)
    then show ?thesis
      using Cons by (simp add: matched_length_def split: list.splits)
  qed
qed

lemma prefix_take: "prefix a b \<Longrightarrow> length a \<le> k \<Longrightarrow> prefix a (take k b)"
  by (auto simp: prefix_def)

lemma drop_add_append: "length A = n \<Longrightarrow> drop (n + k) (A @ D) = drop k D"
  by simp

lemma mounted:
  assumes mm: "mount_match m (path_of (url r))" and m: "m = CHR ''/'' # m'" and m': "m' \<noteq> []"
  obtains w rm where
    "url r = getProtohost (url r) @ CHR ''/'' # w"
    and "removed m r = CHR ''/'' # rm"
    and "removed m r @ trimmed m r = CHR ''/'' # w"
    and "\<And>c. c \<in> set (removed m r) \<Longrightarrow> \<not> path_end c"
    and "prefix (map to_lower m) (map to_lower (removed m r))"
    and "\<And>w'. getProtohost (getProtohost (url r) @ CHR ''/'' # w') = getProtohost (url r)"
    and "\<And>w'. path_of (getProtohost (url r) @ CHR ''/'' # w') =
           takeWhile (\<lambda>c. \<not> path_end c) (CHR ''/'' # w')"
proof -
  define u where "u = url r"
  define ph where "ph = getProtohost u"
  define pth where "pth = path_of u"
  define k where "k = matched_length m pth"
  from mm obtain q where pq: "pth = CHR ''/'' # q" and lq: "length m' \<le> length q"
    unfolding m pth_def u_def by (rule match_slash)
  from lq m' have qne: "q \<noteq> []" by auto
  have pq': "path_of u = CHR ''/'' # q"
    using pq unfolding pth_def .
  obtain w where
    uw: "u = ph @ CHR ''/'' # w"
    and rb1: "\<And>w'. getProtohost (ph @ CHR ''/'' # w') = ph"
    and rb2: "\<And>w'. path_of (ph @ CHR ''/'' # w') = takeWhile (\<lambda>c. \<not> path_end c) (CHR ''/'' # w')"
    unfolding ph_def by (rule target_rebuild [OF pq' qne]) blast
  have pw: "pth = takeWhile (\<lambda>c. \<not> path_end c) (CHR ''/'' # w)"
    unfolding pth_def using rb2 [of w] uw by simp
  have lm: "length m \<le> length pth"
    using lq by (simp add: m pq)
  have k1: "length m \<le> k" and k2: "k \<le> length pth"
    unfolding k_def using matched_length_bounds [OF lm] by simp_all
  have rem: "removed m r = take k pth"
    by (simp add: removed_def k_def pth_def u_def)
  have "0 < k" using k1 m by auto
  then obtain k' where k': "k = Suc k'" by (cases k) auto
  have r1: "removed m r = CHR ''/'' # take k' q"
    by (simp add: rem pq k')
  have tkw: "take k pth = take k (CHR ''/'' # w)"
    unfolding pw using k2 [unfolded pw] by (rule take_takeWhile)
  have "trimmed m r = drop (length ph + k) (ph @ CHR ''/'' # w)"
    unfolding trimmed_def rem using k2 uw by (simp add: u_def ph_def min_absorb2)
  also have "\<dots> = drop k (CHR ''/'' # w)"
    by (rule drop_add_append) simp
  finally have tr: "trimmed m r = drop k (CHR ''/'' # w)" .
  have r3: "removed m r @ trimmed m r = CHR ''/'' # w"
    unfolding rem tkw tr by simp
  have r4: "\<And>c. c \<in> set (removed m r) \<Longrightarrow> \<not> path_end c"
  proof -
    fix c assume "c \<in> set (removed m r)"
    then have "c \<in> set (takeWhile (\<lambda>c. \<not> path_end c) (CHR ''/'' # w))"
      unfolding rem pw by (rule in_set_takeD)
    then show "\<not> path_end c"
      by (rule set_takeWhileD [THEN conjunct2])
  qed
  have "prefix (map to_lower m) (map to_lower pth)"
    using mm unfolding pth_def u_def by (rule match_under) (simp add: m)
  then have "prefix (map to_lower m) (take k (map to_lower pth))"
    using k1 by (intro prefix_take) simp_all
  then have r5: "prefix (map to_lower m) (map to_lower (removed m r))"
    by (simp add: rem take_map)
  show ?thesis
    using that [of w "take k' q"] uw r1 r3 r4 r5 rb1 rb2
    unfolding ph_def u_def by blast
qed

lemma stays_under:
  assumes mm: "mount_match (CHR ''/'' # a # m') (path_of (url r))"
  shows "prefix (map to_lower (CHR ''/'' # a # m'))
           (map to_lower (path_of (url (leave (CHR ''/'' # a # m') r r'))))"
proof -
  define m where "m = CHR ''/'' # a # m'"
  have m: "m = CHR ''/'' # (a # m')" and ne: "a # m' \<noteq> []"
    by (simp_all add: m_def)
  obtain w rm where
    rem: "removed m r = CHR ''/'' # rm"
    and chars: "\<And>c. c \<in> set (removed m r) \<Longrightarrow> \<not> path_end c"
    and pre: "prefix (map to_lower m) (map to_lower (removed m r))"
    and rb2: "\<And>w'. path_of (getProtohost (url r) @ CHR ''/'' # w') =
           takeWhile (\<lambda>c. \<not> path_end c) (CHR ''/'' # w')"
    by (rule mounted [OF mm [folded m_def] m ne]) blast
  define x where "x = drop (length (getProtohost (url r)))
       (if slash_added m r then drop 1 (url r') else url r')"
  have u: "url (leave m r r') = getProtohost (url r) @ CHR ''/'' # (rm @ x)"
    using ne by (simp add: leave_def m_def x_def rem [unfolded m_def])
  have "path_of (url (leave m r r')) = takeWhile (\<lambda>c. \<not> path_end c) (removed m r @ x)"
    unfolding u rb2 by (simp add: rem)
  also have "\<dots> = removed m r @ takeWhile (\<lambda>c. \<not> path_end c) x"
    by (rule takeWhile_append2) (rule chars)
  finally have "path_of (url (leave m r r')) = removed m r @ takeWhile (\<lambda>c. \<not> path_end c) x" .
  then show ?thesis
    using pre unfolding m_def by simp
qed

lemma leave_enter:
  assumes mm: "mount_match (CHR ''/'' # a # m') (path_of (url r))"
  shows "url (leave (CHR ''/'' # a # m') r (r'\<lparr>url := url (enter (CHR ''/'' # a # m') r)\<rparr>)) = url r"
proof -
  define m where "m = CHR ''/'' # a # m'"
  have m: "m = CHR ''/'' # (a # m')" and ne: "a # m' \<noteq> []"
    by (simp_all add: m_def)
  obtain w rm where
    uw: "url r = getProtohost (url r) @ CHR ''/'' # w"
    and rt: "removed m r @ trimmed m r = CHR ''/'' # w"
    by (rule mounted [OF mm [folded m_def] m ne]) blast
  define ph where "ph = getProtohost (url r)"
  have sa: "slash_added m r \<Longrightarrow> ph = []"
    by (simp add: slash_added_def ph_def)
  have "url (leave m r (r'\<lparr>url := url (enter m r)\<rparr>)) = ph @ removed m r @ trimmed m r"
    using sa by (cases "slash_added m r") (simp_all add: leave_def enter_def m ph_def)
  also have "\<dots> = url r"
    unfolding rt ph_def using uw by simp
  finally show ?thesis
    unfolding m_def .
qed

lemma leave_fields:
  "m \<noteq> [] \<Longrightarrow> leave m r r' = r'\<lparr>url := url (leave m r r'), reqBaseUrl := reqBaseUrl r\<rparr>"
  by (simp add: leave_def)

lemma leave_enter_user:
  assumes mm: "mount_match (CHR ''/'' # a # m') (path_of (url r))"
  shows "leave (CHR ''/'' # a # m') r ((enter (CHR ''/'' # a # m') r)\<lparr>user := x\<rparr>) = r\<lparr>user := x\<rparr>"
proof -
  define m where "m = CHR ''/'' # a # m'"
  define E where "E = enter m r"
  have ne: "m \<noteq> []" by (simp add: m_def)
  have "url (leave m r ((E\<lparr>user := x\<rparr>)\<lparr>url := url E\<rparr>)) = url r"
    unfolding E_def m_def using mm by (rule leave_enter)
  moreover have "(E\<lparr>user := x\<rparr>)\<lparr>url := url E\<rparr> = E\<lparr>user := x\<rparr>"
    by simp
  ultimately have A: "url (leave m r (E\<lparr>user := x\<rparr>)) = url r"
    by simp
  have "leave m r (E\<lparr>user := x\<rparr>) = (E\<lparr>user := x\<rparr>)\<lparr>url := url r, reqBaseUrl := reqBaseUrl r\<rparr>"
    by (subst leave_fields [OF ne]) (simp add: A)
  also have "\<dots> = r\<lparr>user := x\<rparr>"
    using ne by (simp add: E_def enter_def)
  finally show ?thesis
    unfolding E_def m_def .
qed

lemma leave_enter_same:
  assumes mm: "mount_match (CHR ''/'' # a # m') (path_of (url r))"
  shows "leave (CHR ''/'' # a # m') r (enter (CHR ''/'' # a # m') r) = r"
proof -
  define E where "E = enter (CHR ''/'' # a # m') r"
  have "leave (CHR ''/'' # a # m') r (E\<lparr>user := user r\<rparr>) = r\<lparr>user := user r\<rparr>"
    unfolding E_def using mm by (rule leave_enter_user)
  moreover have "user E = user r"
    by (simp add: E_def enter_def)
  then have "E\<lparr>user := user r\<rparr> = E"
    by (metis request.surjective request.update_convs(6))
  ultimately show ?thesis
    unfolding E_def by simp
qed

lemma enter_user: "enter m (r\<lparr>user := x\<rparr>) = (enter m r)\<lparr>user := x\<rparr>"
  by (simp add: enter_def slash_added_def trimmed_def removed_def)

section \<open>The route table\<close>

lemma routes_unfold:
  "routes c e =
     [Layer ''/api/auth'' AuthRoutes (Plain (authRoutes e)),
      Layer ''/api/mailer'' MailerRoutes (Plain (mailerRoutes e)),
      Layer ''/api/payments'' VerifyJwt (Plain (verifyJwt e)),
      Layer ''/api/payments'' PaymentRoutes (Plain (paymentRoutes e)),
      Layer ''/api/graphql'' VerifyJwt (Plain (verifyJwt e)),
      Layer ''/api/graphql'' GraphqlExpress (Plain (graphqlExpress e (graphqlOptions e)))] @
     (if docs (server c)
      then [Layer ''/api/docs'' GraphiqlExpress
              (Plain (graphiqlExpress e \<lparr>endpointURL = ''/api/graphql''\<rparr>))]
      else [])"
  by (simp add: routes_def mounts_eval)

lemma prefix_nth: "prefix m q \<Longrightarrow> n < length m \<Longrightarrow> q ! n = m ! n"
  by (auto simp: prefix_def nth_append)

lemma route_key:
  assumes "a \<in> {''/api/auth'', ''/api/mailer'', ''/api/payments'', ''/api/graphql'', ''/api/docs''}"
  shows "map to_lower a = a" and "5 < length a" and "a \<noteq> []"
  using assms by (auto simp: to_lower_def)

lemma route_keys_differ:
  assumes "a \<in> {''/api/auth'', ''/api/mailer'', ''/api/payments'', ''/api/graphql'', ''/api/docs''}"
    and "b \<in> {''/api/auth'', ''/api/mailer'', ''/api/payments'', ''/api/graphql'', ''/api/docs''}"
    and "a ! 5 = b ! 5"
  shows "a = b"
  using assms by auto

lemma under_excludes:
  assumes under: "prefix (map to_lower a) (map to_lower p)"
    and a: "a \<in> {''/api/auth'', ''/api/mailer'', ''/api/payments'', ''/api/graphql'', ''/api/docs''}"
    and b: "b \<in> {''/api/auth'', ''/api/mailer'', ''/api/payments'', ''/api/graphql'', ''/api/docs''}"
    and ab: "a \<noteq> b"
  shows "\<not> mount_match b p"
proof
  assume "mount_match b p"
  then have "prefix (map to_lower b) (map to_lower p)"
    using route_key(3) [OF b] by (simp add: mount_match_def)
  then have "map to_lower p ! 5 = b ! 5"
    using route_key [OF b] prefix_nth [of b "map to_lower p" 5] by simp
  moreover have "map to_lower p ! 5 = a ! 5"
    using under route_key [OF a] prefix_nth [of a "map to_lower p" 5] by simp
  ultimately have "a ! 5 = b ! 5" by simp
  with a b have "a = b" by (rule route_keys_differ)
  with ab show False by simp
qed

lemma skip_others:
  assumes "prefix (map to_lower a) (map to_lower (path_of (url r)))"
    and "a \<in> {''/api/auth'', ''/api/mailer'', ''/api/payments'', ''/api/graphql'', ''/api/docs''}"
    and "list_all (\<lambda>l. mount l \<noteq> a \<and>
           mount l \<in> {''/api/auth'', ''/api/mailer'', ''/api/payments'', ''/api/graphql'', ''/api/docs''}) ls"
  shows "dispatch (ls @ ys) pend r s tr = dispatch ys pend r s tr"
proof (rule dispatch_skip)
  show "list_all (\<lambda>l. \<not> applies l pend (path_of (url r))) ls"
    using assms(3)
  proof (rule list.pred_mono_strong)
    fix l
    assume "mount l \<noteq> a \<and>
      mount l \<in> {''/api/auth'', ''/api/mailer'', ''/api/payments'', ''/api/graphql'', ''/api/docs''}"
    then have "\<not> mount_match (mount l) (path_of (url r))"
      using under_excludes [OF assms(1) assms(2), of "mount l"] by blast
    then show "\<not> applies l pend (path_of (url r))"
      by (simp add: applies_def)
  qed
qed

lemma stays_under_route:
  assumes mm: "mount_match a (path_of (url r))"
    and a: "a \<in> {''/api/auth'', ''/api/mailer'', ''/api/payments'', ''/api/graphql'', ''/api/docs''}"
  shows "prefix (map to_lower a) (map to_lower (path_of (url (leave a r r'))))"
proof -
  from a obtain b m' where "a = CHR ''/'' # b # m'" by auto
  with mm show ?thesis by (simp only: stays_under)
qed


lemma after_route:
  assumes mm: "mount_match a (path_of (url r))"
    and a: "a \<in> {''/api/auth'', ''/api/mailer'', ''/api/payments'', ''/api/graphql'', ''/api/docs''}"
    and others: "list_all (\<lambda>l. mount l \<noteq> a \<and>
           mount l \<in> {''/api/auth'', ''/api/mailer'', ''/api/payments'', ''/api/graphql'', ''/api/docs''}) ls"
  shows "continue (ls @ terminals e) a r res tr =
     (case res of
        (Next r' s', logs) \<Rightarrow> dispatch (terminals e) None (leave a r r') s' (tr @ map Logged logs)
      | (Done s', logs) \<Rightarrow> (Done s', tr @ map Logged logs)
      | (Fail err r' s', logs) \<Rightarrow>
          dispatch (terminals e) (Some err) (leave a r r') s' (tr @ map Logged logs))"
proof -
  have under: "\<And>r'. prefix (map to_lower a) (map to_lower (path_of (url (leave a r r'))))"
    using mm a by (rule stays_under_route)
  show ?thesis
    by (simp add: continue_def skip_others [OF under a others]
        split: prod.splits outcome.splits)
qed

section \<open>Unknown routes\<close>

lemma handle_router:
  "handle c e rq =
     (case dispatch (securityHeaders c e @ globalMiddleware e) None rq fresh [] of
        (Next r s, tr) \<Rightarrow> dispatch (router c e) None r s tr
      | (Done s, tr) \<Rightarrow> (Done s, tr)
      | (Fail err r s, tr) \<Rightarrow> dispatch (router c e) (Some err) r s tr)"
  using dispatch_append [of "securityHeaders c e @ globalMiddleware e" "router c e" None rq fresh "[]"]
  by (simp add: handle_def app_def)

lemma router_unrouted:
  assumes "unrouted c e (path_of (url r))"
  shows "dispatch (router c e) pend r s tr = dispatch (terminals e) pend r s tr"
  unfolding router_def
proof (rule dispatch_skip)
  show "list_all (\<lambda>l. \<not> applies l pend (path_of (url r))) (routes c e)"
    using assms unfolding unrouted_def
    by (rule list.pred_mono_strong) (simp add: applies_def)
qed



lemma path_of_origin: "path_of (CHR ''/'' # w) = takeWhile (\<lambda>c. \<not> path_end c) (CHR ''/'' # w)"
  by (simp add: path_of_def)

lemma sample_unrouted:
  "unrouted c e (path_of ''/x?y=1'')"
  "unrouted c e (path_of ''/does-not-exist'')"
  by (simp_all add: unrouted_def routes_unfold path_of_origin path_end_def mount_match_def
      to_lower_def)

text \<open>
  C10. In the unknown-route envelope, \<open>meta.route\<close> is \<open>req.url\<close> as it stands, query string
  included, not the pathname: a request for \<open>/x?y=1\<close> that reaches the routing stage is
  answered with \<open>meta.route\<close> equal to \<open>/x?y=1\<close>.
\<close>

theorem unknown_route_meta_is_url:
  "fst (unknownRoute e r s) =
     Done (s\<lparr>status := 404,
              resBody := Some (JObj [(''errors'',
                JArr [JObj [(''statusCode'', JStr ''404''),
                            (''message'', JStr ''Unknown route requested''),
                            (''code'', JStr ''UNKNOWN_ROUTE''),
                            (''meta'', JObj [(''route'', JStr (url r))])]])])\<rparr>)
   \<and> fst (dispatch (router c e) None (sampleRequest ''GET'' ''/x?y=1'') s tr) =
     Done (s\<lparr>status := 404,
              resBody := Some (JObj [(''errors'',
                JArr [JObj [(''statusCode'', JStr ''404''),
                            (''message'', JStr ''Unknown route requested''),
                            (''code'', JStr ''UNKNOWN_ROUTE''),
                            (''meta'', JObj [(''route'', JStr ''/x?y=1'')])]])])\<rparr>)"
proof
  show "fst (unknownRoute e r s) =
     Done (s\<lparr>status := 404,
              resBody := Some (JObj [(''errors'',
                JArr [JObj [(''statusCode'', JStr ''404''),
                            (''message'', JStr ''Unknown route requested''),
                            (''code'', JStr ''UNKNOWN_ROUTE''),
                            (''meta'', JObj [(''route'', JStr (url r))])]])])\<rparr>)"
    by (simp add: unknownRoute_def formatError_appError item_json_def)
next
  have "unrouted c e (path_of (url (sampleRequest ''GET'' ''/x?y=1'')))"
    using sample_unrouted(1) by (simp add: sampleRequest_def)
  then show "fst (dispatch (router c e) None (sampleRequest ''GET'' ''/x?y=1'') s tr) =
     Done (s\<lparr>status := 404,
              resBody := Some (JObj [(''errors'',
                JArr [JObj [(''statusCode'', JStr ''404''),
                            (''message'', JStr ''Unknown route requested''),
                            (''code'', JStr ''UNKNOWN_ROUTE''),
                            (''meta'', JObj [(''route'', JStr ''/x?y=1'')])]])])\<rparr>)"
    by (simp add: router_unrouted dispatch_terminals_None sampleRequest_def)
qed

theorem unknown_route_meta_is_url_witness:
  "fst (unknownRoute sampleEnv (sampleRequest ''GET'' ''/search?q=a&page=2'') fresh) =
     Done \<lparr>status = 404, resHeaders = [],
           resBody = Some (JObj [(''errors'',
                JArr [JObj [(''statusCode'', JStr ''404''),
                            (''message'', JStr ''Unknown route requested''),
                            (''code'', JStr ''UNKNOWN_ROUTE''),
                            (''meta'', JObj [(''route'', JStr ''/search?q=a&page=2'')])]])])\<rparr>"
  using unknown_route_meta_is_url [of sampleEnv "sampleRequest ''GET'' ''/search?q=a&page=2''" fresh]
  by (simp add: fresh_def sampleRequest_def)

section \<open>Terminal handlers\<close>













section \<open>First match and longest match\<close>





lemma route_cases:
  obtains (auth) "mount_match ''/api/auth'' p" "\<not> mount_match ''/api/mailer'' p"
      "\<not> mount_match ''/api/payments'' p" "\<not> mount_match ''/api/graphql'' p"
      "\<not> mount_match ''/api/docs'' p"
  | (mailer) "\<not> mount_match ''/api/auth'' p" "mount_match ''/api/mailer'' p"
      "\<not> mount_match ''/api/payments'' p" "\<not> mount_match ''/api/graphql'' p"
      "\<not> mount_match ''/api/docs'' p"
  | (payments) "\<not> mount_match ''/api/auth'' p" "\<not> mount_match ''/api/mailer'' p"
      "mount_match ''/api/payments'' p" "\<not> mount_match ''/api/graphql'' p"
      "\<not> mount_match ''/api/docs'' p"
  | (graphql) "\<not> mount_match ''/api/auth'' p" "\<not> mount_match ''/api/mailer'' p"
      "\<not> mount_match ''/api/payments'' p" "mount_match ''/api/graphql'' p"
      "\<not> mount_match ''/api/docs'' p"
  | (docs) "\<not> mount_match ''/api/auth'' p" "\<not> mount_match ''/api/mailer'' p"
      "\<not> mount_match ''/api/payments'' p" "\<not> mount_match ''/api/graphql'' p"
      "mount_match ''/api/docs'' p"
  | (none) "\<not> mount_match ''/api/auth'' p" "\<not> mount_match ''/api/mailer'' p"
      "\<not> mount_match ''/api/payments'' p" "\<not> mount_match ''/api/graphql'' p"
      "\<not> mount_match ''/api/docs'' p"
proof -
  have ex: "mount_match a p \<Longrightarrow> a \<noteq> b \<Longrightarrow> \<not> mount_match b p"
    if "a \<in> {''/api/auth'', ''/api/mailer'', ''/api/payments'', ''/api/graphql'', ''/api/docs''}"
      and "b \<in> {''/api/auth'', ''/api/mailer'', ''/api/payments'', ''/api/graphql'', ''/api/docs''}"
    for a b
    using that under_excludes [of a p b] match_under [of a p] route_key(3) [of a] by blast
  show ?thesis
  proof (cases "mount_match ''/api/auth'' p")
    case True
    then show ?thesis using ex [of "''/api/auth''"] auth by simp
  next
    case na: False
    show ?thesis
    proof (cases "mount_match ''/api/mailer'' p")
      case True
      then show ?thesis using ex [of "''/api/mailer''"] mailer by simp
    next
      case nm: False
      show ?thesis
      proof (cases "mount_match ''/api/payments'' p")
        case True
        then show ?thesis using ex [of "''/api/payments''"] payments by simp
      next
        case np: False
        show ?thesis
        proof (cases "mount_match ''/api/graphql'' p")
          case True
          then show ?thesis using ex [of "''/api/graphql''"] graphql by simp
        next
          case ng: False
          show ?thesis
            using na nm np ng docs none by (cases "mount_match ''/api/docs'' p") simp_all
        qed
      qed
    qed
  qed
qed














section \<open>The routes one by one\<close>

lemma terminals_trace:
  "\<exists>out evs. dispatch (terminals e) pend r s tr = (out, tr @ evs) \<and>
     (\<forall>st. Enter st \<in> set evs \<longrightarrow> st = UnknownRoute \<or> st = ErrorMiddleware)"
proof -
  obtain out tr' where d: "dispatch (terminals e) pend r s tr = (out, tr')"
    by (cases "dispatch (terminals e) pend r s tr")
  from dispatch_trace [OF d] show ?thesis
    unfolding d by (auto simp: terminals_def)
qed

lemma after_route_trace:
  assumes mm: "mount_match a (path_of (url r))"
    and a: "a \<in> {''/api/auth'', ''/api/mailer'', ''/api/payments'', ''/api/graphql'', ''/api/docs''}"
    and others: "list_all (\<lambda>l. mount l \<noteq> a \<and>
           mount l \<in> {''/api/auth'', ''/api/mailer'', ''/api/payments'', ''/api/graphql'', ''/api/docs''}) ls"
  shows "\<exists>out evs. continue (ls @ terminals e) a r res tr = (out, tr @ evs) \<and>
           (\<forall>st. Enter st \<in> set evs \<longrightarrow> st = UnknownRoute \<or> st = ErrorMiddleware)"
proof -
  obtain o' logs where res: "res = (o', logs)" by (cases res)
  show ?thesis
  proof (cases o')
    case (Next r' s')
    from terminals_trace [of e None "leave a r r'" s' "tr @ map Logged logs"]
    show ?thesis
      by (auto simp add: res Next after_route [OF mm a others])
  next
    case (Done s')
    show ?thesis
      by (auto simp add: res Done after_route [OF mm a others])
  next
    case (Fail err r' s')
    from terminals_trace [of e "Some err" "leave a r r'" s' "tr @ map Logged logs"]
    show ?thesis
      by (auto simp add: res Fail after_route [OF mm a others])
  qed
qed

lemma drop_routes:
  "list_all (\<lambda>l. mount l \<noteq> ''/api/auth'' \<and>
      mount l \<in> {''/api/auth'', ''/api/mailer'', ''/api/payments'', ''/api/graphql'', ''/api/docs''})
     (drop 1 (routes c e))"
  "list_all (\<lambda>l. mount l \<noteq> ''/api/mailer'' \<and>
      mount l \<in> {''/api/auth'', ''/api/mailer'', ''/api/payments'', ''/api/graphql'', ''/api/docs''})
     (drop 2 (routes c e))"
  "list_all (\<lambda>l. mount l \<noteq> ''/api/payments'' \<and>
      mount l \<in> {''/api/auth'', ''/api/mailer'', ''/api/payments'', ''/api/graphql'', ''/api/docs''})
     (drop 4 (routes c e))"
  "list_all (\<lambda>l. mount l \<noteq> ''/api/graphql'' \<and>
      mount l \<in> {''/api/auth'', ''/api/mailer'', ''/api/payments'', ''/api/graphql'', ''/api/docs''})
     (drop 6 (routes c e))"
  by (simp_all add: routes_unfold)

lemma router_auth:
  assumes "mount_match ''/api/auth'' (path_of (url r))"
  shows "dispatch (router c e) None r s tr =
     continue (drop 1 (routes c e) @ terminals e) ''/api/auth'' r
       (authRoutes e (enter ''/api/auth'' r) s) (tr @ [Enter AuthRoutes])"
  using assms
  by (simp add: router_def routes_unfold invoke_Layer continue_def
      split: prod.splits outcome.splits)

lemma router_mailer:
  assumes "mount_match ''/api/mailer'' (path_of (url r))"
  shows "dispatch (router c e) None r s tr =
     continue (drop 2 (routes c e) @ terminals e) ''/api/mailer'' r
       (mailerRoutes e (enter ''/api/mailer'' r) s) (tr @ [Enter MailerRoutes])"
proof (cases "path_of (url r)" rule: route_cases)
  case mailer
  then show ?thesis
    by (simp add: router_def routes_unfold invoke_Layer continue_def
        split: prod.splits outcome.splits)
qed (use assms in simp_all)

lemma router_payments_rejected:
  assumes "mount_match ''/api/payments'' (path_of (url r))"
    and "verifyToken e (enter ''/api/payments'' r) = None"
  shows "dispatch (router c e) None r s tr =
     (Done (unauthorized e (enter ''/api/payments'' r) s), tr @ [Enter VerifyJwt])"
proof (cases "path_of (url r)" rule: route_cases)
  case payments
  then show ?thesis
    using assms(2) by (simp add: router_def routes_unfold invoke_Layer verifyJwt_def)
qed (use assms in simp_all)

lemma router_payments_accepted:
  assumes "mount_match ''/api/payments'' (path_of (url r))"
    and "verifyToken e (enter ''/api/payments'' r) = Some u"
  shows "dispatch (router c e) None r s tr =
     continue (drop 4 (routes c e) @ terminals e) ''/api/payments'' (r\<lparr>user := Some u\<rparr>)
       (paymentRoutes e ((enter ''/api/payments'' r)\<lparr>user := Some u\<rparr>) s)
       (tr @ [Enter VerifyJwt, Enter PaymentRoutes])"
proof (cases "path_of (url r)" rule: route_cases)
  case payments
  then show ?thesis
    using assms(2)
    by (simp add: router_def routes_unfold invoke_Layer verifyJwt_def continue_def
        leave_enter_user enter_user split: prod.splits outcome.splits)
qed (use assms in simp_all)

lemma router_graphql_rejected:
  assumes "mount_match ''/api/graphql'' (path_of (url r))"
    and "verifyToken e (enter ''/api/graphql'' r) = None"
  shows "dispatch (router c e) None r s tr =
     (Done (unauthorized e (enter ''/api/graphql'' r) s), tr @ [Enter VerifyJwt])"
proof (cases "path_of (url r)" rule: route_cases)
  case graphql
  then show ?thesis
    using assms(2) by (simp add: router_def routes_unfold invoke_Layer verifyJwt_def)
qed (use assms in simp_all)

lemma router_graphql_accepted:
  assumes "mount_match ''/api/graphql'' (path_of (url r))"
    and "verifyToken e (enter ''/api/graphql'' r) = Some u"
  shows "dispatch (router c e) None r s tr =
     continue (drop 6 (routes c e) @ terminals e) ''/api/graphql'' (r\<lparr>user := Some u\<rparr>)
       (graphqlExpress e (graphqlOptions e) ((enter ''/api/graphql'' r)\<lparr>user := Some u\<rparr>) s)
       (tr @ [Enter VerifyJwt, Enter GraphqlExpress])"
proof (cases "path_of (url r)" rule: route_cases)
  case graphql
  then show ?thesis
    using assms(2)
    by (simp add: router_def routes_unfold invoke_Layer verifyJwt_def continue_def
        leave_enter_user enter_user split: prod.splits outcome.splits)
qed (use assms in simp_all)

lemma router_docs:
  assumes "mount_match ''/api/docs'' (path_of (url r))" and "docs (server c)"
  shows "dispatch (router c e) None r s tr =
     continue (terminals e) ''/api/docs'' r
       (graphiqlExpress e \<lparr>endpointURL = ''/api/graphql''\<rparr> (enter ''/api/docs'' r) s)
       (tr @ [Enter GraphiqlExpress])"
proof (cases "path_of (url r)" rule: route_cases)
  case docs
  then show ?thesis
    using assms(2)
    by (simp add: router_def routes_unfold invoke_Layer continue_def
        split: prod.splits outcome.splits)
qed (use assms in simp_all)

lemma router_docs_off:
  assumes "mount_match ''/api/docs'' (path_of (url r))" and "\<not> docs (server c)"
  shows "unrouted c e (path_of (url r))"
proof (cases "path_of (url r)" rule: route_cases)
  case docs
  then show ?thesis
    using assms(2) by (simp add: unrouted_def routes_unfold)
qed (use assms in simp_all)

end
